theory Spec2Isabelle
  imports Main "HOL-Library.Word"
begin

section \<open>Python values used by the slcan interface\<close>

text \<open>
  A Python \<open>str\<close> is a sequence of Unicode code points, a \<open>bytearray\<close> a sequence of
  8-bit values. Exceptions are values of the type \<open>error\<close>.
  The Unicode properties consulted by \<open>str.isdigit\<close>, \<open>str.upper\<close> and \<open>int\<close> are
  tabulated for U+0000..U+00FF; above that range a code point is taken to be a caseless
  non-digit, non-space character.
\<close>

type_synonym byte = "8 word"
type_synonym str = "nat list"

datatype error = ValueError | IndexError | CanOperationError | CanInitializationError

definition ascii :: "string \<Rightarrow> str" where
  "ascii s = map of_char s"

definition getitem :: "str \<Rightarrow> nat \<Rightarrow> error + nat" where
  "getitem s i = (if i < length s then Inr (s ! i) else Inl IndexError)"

definition slice :: "str \<Rightarrow> nat \<Rightarrow> nat \<Rightarrow> str" where
  "slice s a b = drop a (take b s)"

definition ascii_isspace :: "nat \<Rightarrow> bool" where
  "ascii_isspace c = (c = 32 \<or> (9 \<le> c \<and> c \<le> 13))"

definition digit_value :: "nat \<Rightarrow> nat" where
  "digit_value c =
     (if 48 \<le> c \<and> c \<le> 57 then c - 48
      else if 65 \<le> c \<and> c \<le> 90 then c - 55
      else if 97 \<le> c \<and> c \<le> 122 then c - 87
      else 37)"

subsection \<open>bytearray.fromhex\<close>

fun fromhex :: "str \<Rightarrow> error + byte list" where
  "fromhex [] = Inr []"
| "fromhex [c] = (if ascii_isspace c then Inr [] else Inl ValueError)"
| "fromhex (c # d # ds) =
     (if ascii_isspace c then fromhex (d # ds)
      else if digit_value c < 16 \<and> digit_value d < 16 then
        (case fromhex ds of
           Inl e \<Rightarrow> Inl e
         | Inr bs \<Rightarrow> Inr (word_of_nat (16 * digit_value c + digit_value d) # bs))
      else Inl ValueError)"

subsection \<open>int(s, base)\<close>

definition int_space :: "nat \<Rightarrow> bool" where
  "int_space c = (ascii_isspace c \<or> c = 133 \<or> c = 160)"

fun strip_sign :: "str \<Rightarrow> bool \<times> str" where
  "strip_sign [] = (False, [])"
| "strip_sign (c # cs) =
     (if c = 43 then (False, cs) else if c = 45 then (True, cs) else (False, c # cs))"

fun strip_prefix :: "nat \<Rightarrow> str \<Rightarrow> str" where
  "strip_prefix base (z # x # cs) =
     (if base = 16 \<and> z = 48 \<and> (x = 120 \<or> x = 88)
      then (case cs of [] \<Rightarrow> [] | u # us \<Rightarrow> if u = 95 then us else cs)
      else z # x # cs)"
| "strip_prefix base cs = cs"

text \<open>
  The digit scan: \<open>prev\<close> tells whether the previous character was an underscore,
  \<open>acc\<close> is the value read so far. The result is the value and the unread rest, or
  \<open>None\<close> for a doubled or trailing underscore.
\<close>

fun scan_digits :: "nat \<Rightarrow> bool \<Rightarrow> nat \<Rightarrow> str \<Rightarrow> (nat \<times> str) option" where
  "scan_digits base prev acc [] = (if prev then None else Some (acc, []))"
| "scan_digits base prev acc (c # cs) =
     (if c = 95 then (if prev then None else scan_digits base True acc cs)
      else if digit_value c < base then scan_digits base False (acc * base + digit_value c) cs
      else if prev then None else Some (acc, c # cs))"

definition py_int :: "nat \<Rightarrow> str \<Rightarrow> error + int" where
  "py_int base s =
     (let (neg, s1) = strip_sign (dropWhile int_space s);
          s2 = strip_prefix base s1
      in case s2 of
           [] \<Rightarrow> Inl ValueError
         | c # cs \<Rightarrow>
             if c = 95 \<or> \<not> digit_value c < base then Inl ValueError
             else (case scan_digits base False 0 s2 of
                     None \<Rightarrow> Inl ValueError
                   | Some (v, rest) \<Rightarrow>
                       if dropWhile int_space rest = []
                       then Inr (if neg then - int v else int v)
                       else Inl ValueError))"

subsection \<open>str.isdigit and str.upper\<close>

definition isdigit_char :: "nat \<Rightarrow> bool" where
  "isdigit_char c = ((48 \<le> c \<and> c \<le> 57) \<or> c = 178 \<or> c = 179 \<or> c = 185)"

definition isdigit :: "str \<Rightarrow> bool" where
  "isdigit s = (s \<noteq> [] \<and> list_all isdigit_char s)"

definition upper_char :: "nat \<Rightarrow> str" where
  "upper_char c =
     (if 97 \<le> c \<and> c \<le> 122 then [c - 32]
      else if c = 181 then [924]
      else if c = 223 then [83, 83]
      else if 224 \<le> c \<and> c \<le> 254 \<and> c \<noteq> 247 then [c - 32]
      else if c = 255 then [376]
      else [c])"

definition upper :: "str \<Rightarrow> str" where
  "upper s = concat (map upper_char s)"

section \<open>The DLC codec\<close>

definition decode_hex_dlc :: "str \<Rightarrow> error + int" where
  "decode_hex_dlc hex_dlc0 =
     (let hex_dlc = upper hex_dlc0 in
      if isdigit hex_dlc then
        (case py_int 10 hex_dlc of
           Inl e \<Rightarrow> Inl e
         | Inr num \<Rightarrow>
             if 0 \<le> num \<and> num \<le> 8 then Inr num
             else if num = 9 then Inr 12
             else Inr 64)
      else if hex_dlc = ascii ''A'' then Inr 16
      else if hex_dlc = ascii ''B'' then Inr 20
      else if hex_dlc = ascii ''C'' then Inr 24
      else if hex_dlc = ascii ''D'' then Inr 32
      else if hex_dlc = ascii ''E'' then Inr 48
      else Inr 64)"

definition encode_dlc_hex :: "int \<Rightarrow> str" where
  "encode_dlc_hex data_length =
     (if 0 \<le> data_length \<and> data_length \<le> 8 then [48 + nat data_length]
      else if data_length = 12 then ascii ''9''
      else if data_length = 16 then ascii ''A''
      else if data_length = 20 then ascii ''B''
      else if data_length = 24 then ascii ''C''
      else if data_length = 32 then ascii ''D''
      else if data_length = 48 then ascii ''E''
      else ascii ''F'')"

definition canonical_lengths :: "int list" where
  "canonical_lengths = [0, 1, 2, 3, 4, 5, 6, 7, 8, 12, 16, 20, 24, 32, 48, 64]"

definition nibble_chars :: "str" where
  "nibble_chars = ascii ''0123456789ABCDEF''"

section \<open>UTF-8, the codec of \<open>bytes.decode()\<close> and \<open>str.encode()\<close>\<close>

definition continuation :: "nat \<Rightarrow> bool" where
  "continuation c = (128 \<le> c \<and> c \<le> 191)"

text \<open>
  For a lead byte: the number of continuation bytes, the range allowed for the first of
  them, and the payload bits of the lead byte.
\<close>

definition lead :: "nat \<Rightarrow> (nat \<times> nat \<times> nat \<times> nat) option" where
  "lead b =
     (if 194 \<le> b \<and> b \<le> 223 then Some (1, 128, 191, b - 192)
      else if b = 224 then Some (2, 160, 191, 0)
      else if b = 237 then Some (2, 128, 159, 13)
      else if 225 \<le> b \<and> b \<le> 239 then Some (2, 128, 191, b - 224)
      else if b = 240 then Some (3, 144, 191, 0)
      else if 241 \<le> b \<and> b \<le> 243 then Some (3, 128, 191, b - 240)
      else if b = 244 then Some (3, 128, 143, 4)
      else None)"

fun decode_points :: "nat list \<Rightarrow> error + str" where
  "decode_points [] = Inr []"
| "decode_points (b # bs) =
     (if b < 128 then
        (case decode_points bs of Inl e \<Rightarrow> Inl e | Inr s \<Rightarrow> Inr (b # s))
      else
        (case lead b of
           None \<Rightarrow> Inl ValueError
         | Some (n, lo, hi, v) \<Rightarrow>
             if n \<le> length bs \<and> lo \<le> hd bs \<and> hd bs \<le> hi \<and>
                list_all continuation (take n bs)
             then (case decode_points (drop n bs) of
                     Inl e \<Rightarrow> Inl e
                   | Inr s \<Rightarrow> Inr (foldl (\<lambda>a c. a * 64 + (c - 128)) v (take n bs) # s))
             else Inl ValueError))"

definition decode :: "byte list \<Rightarrow> error + str" where
  "decode bs = decode_points (map unat bs)"

definition encode_point :: "nat \<Rightarrow> (nat list) option" where
  "encode_point c =
     (if c < 128 then Some [c]
      else if c < 2048 then Some [192 + c div 64, 128 + c mod 64]
      else if 55296 \<le> c \<and> c \<le> 57343 then None
      else if c < 65536 then Some [224 + c div 4096, 128 + c div 64 mod 64, 128 + c mod 64]
      else if c < 1114112 then
        Some [240 + c div 262144, 128 + c div 4096 mod 64, 128 + c div 64 mod 64, 128 + c mod 64]
      else None)"

fun encode :: "str \<Rightarrow> error + byte list" where
  "encode [] = Inr []"
| "encode (c # cs) =
     (case encode_point c of
        None \<Rightarrow> Inl ValueError
      | Some bs \<Rightarrow>
          (case encode cs of Inl e \<Rightarrow> Inl e | Inr r \<Rightarrow> Inr (map word_of_nat bs @ r)))"

section \<open>The transport and the bus\<close>

text \<open>
  The serial port is the pyserial object behind \<open>serialPortOrig\<close>: \<open>written\<close> collects
  the bytes handed to \<open>write\<close>, \<open>pending\<close> lists what the port will report at its next
  polls (the bytes waiting at each poll, none for \<open>in_waiting = 0\<close>; after the last entry
  the line stays silent). On a closed port \<open>write\<close>, \<open>in_waiting\<close> and \<open>read\<close> raise.
\<close>

record serial =
  is_open :: bool
  written :: "byte list"
  pending :: "byte list list"
  write_timeout :: "nat option"

record slcanBus =
  listen_only :: bool
  serialPortOrig :: serial
  buffer :: "byte list"
  is_shutdown :: bool

text \<open>
  A call returns a value, raises, or never returns; in the first two cases it leaves a
  bus state behind.
\<close>

datatype 'a outcome = Returns 'a slcanBus | Raises error slcanBus | Hangs

definition bus_write :: "str \<Rightarrow> slcanBus \<Rightarrow> unit outcome" where
  "bus_write string b =
     (case encode string of
        Inl e \<Rightarrow> Raises CanOperationError b
      | Inr bs \<Rightarrow>
          if is_open (serialPortOrig b)
          then Returns () (b\<lparr>serialPortOrig := (serialPortOrig b)
                 \<lparr>written := written (serialPortOrig b) @ bs @ [13]\<rparr>\<rparr>)
          else Raises CanOperationError b)"

subsection \<open>The line framer\<close>

fun find_byte :: "byte list \<Rightarrow> byte \<Rightarrow> int" where
  "find_byte [] x = - 1"
| "find_byte (b # bs) x =
     (if b = x then 0 else (let r = find_byte bs x in if r = - 1 then - 1 else r + 1))"

text \<open>
  The timeout is the number of times \<open>_timeout.expired()\<close> still answers no: \<open>None\<close> for
  \<open>timeout=None\<close>, \<open>Some 0\<close> for a timeout that has expired when the loop is entered
  (\<open>timeout=0\<close>).
\<close>

function bus_read :: "nat option \<Rightarrow> slcanBus \<Rightarrow> (str option) outcome" where
  "bus_read timeout b =
     (if timeout = Some 0 then Returns None b
      else
        let ok_index = find_byte (buffer b) 13;
            error_index = find_byte (buffer b) 7
        in
        if error_index \<noteq> - 1 \<or> ok_index \<noteq> - 1 then
          (let first_marker_index =
                 nat (min_list (filter (\<lambda>idx. idx \<noteq> - 1) [error_index, ok_index]))
           in case decode (take (first_marker_index + 1) (buffer b)) of
                Inl e \<Rightarrow> Raises CanOperationError b
              | Inr string \<Rightarrow>
                  Returns (Some string) (b\<lparr>buffer := drop (first_marker_index + 1) (buffer b)\<rparr>))
        else if \<not> is_open (serialPortOrig b) then Raises CanOperationError b
        else
          (case pending (serialPortOrig b) of
             [] \<Rightarrow> (case timeout of None \<Rightarrow> Hangs | Some n \<Rightarrow> Returns None b)
           | new_bytes # rest \<Rightarrow>
               bus_read (map_option (\<lambda>n. n - 1) timeout)
                 (b\<lparr>serialPortOrig := (serialPortOrig b)\<lparr>pending := rest\<rparr>,
                    buffer := buffer b @ new_bytes\<rparr>)))"
  by pat_completeness auto
termination
  by (relation "measure (\<lambda>(t, b). length (pending (serialPortOrig b)))") auto

declare bus_read.simps [simp del]

text \<open>Calling \<open>_read(None)\<close> \<open>n\<close> times in a row, collecting the responses.\<close>

fun read_many :: "nat \<Rightarrow> slcanBus \<Rightarrow> (str option list) outcome" where
  "read_many 0 b = Returns [] b"
| "read_many (Suc n) b =
     (case bus_read None b of
        Returns r b1 \<Rightarrow>
          (case read_many n b1 of
             Returns rs b2 \<Rightarrow> Returns (r # rs) b2
           | Raises e b2 \<Rightarrow> Raises e b2
           | Hangs \<Rightarrow> Hangs)
      | Raises e b1 \<Rightarrow> Raises e b1
      | Hangs \<Rightarrow> Hangs)"

definition terminator :: "byte \<Rightarrow> bool" where
  "terminator x = (x = 13 \<or> x = 7)"

text \<open>
  The terminator-delimited segments of a byte stream, each with its terminator, and the
  unterminated rest.
\<close>

fun segments :: "byte list \<Rightarrow> byte list \<Rightarrow> byte list list" where
  "segments acc [] = []"
| "segments acc (x # xs) =
     (if terminator x then (acc @ [x]) # segments [] xs else segments (acc @ [x]) xs)"

fun remainder :: "byte list \<Rightarrow> byte list \<Rightarrow> byte list" where
  "remainder acc [] = acc"
| "remainder acc (x # xs) = (if terminator x then remainder [] xs else remainder (acc @ [x]) xs)"

text \<open>A bus on an open port: nothing written, nothing buffered, nothing arriving.\<close>

definition fresh_bus :: slcanBus where
  "fresh_bus = \<lparr>listen_only = False,
     serialPortOrig = \<lparr>is_open = True, written = [], pending = [], write_timeout = None\<rparr>,
     buffer = [], is_shutdown = False\<rparr>"

section \<open>Verified properties\<close>

subsection \<open>DLC codec\<close>

text \<open>
  C3. For every canonical byte count \<open>n\<close>, decoding the nibble that encodes \<open>n\<close> gives
  \<open>n\<close> back; for every nibble character \<open>'0'..'9', 'A'..'F'\<close>, encoding what it
  decodes to gives the character back.
\<close>

theorem dlc_roundtrip:
  "(\<forall>n \<in> set canonical_lengths. decode_hex_dlc (encode_dlc_hex n) = Inr n) \<and>
   (\<forall>c \<in> set nibble_chars.
      map_sum id encode_dlc_hex (decode_hex_dlc [c]) = Inr [c])"
  by (simp add: canonical_lengths_def nibble_chars_def decode_hex_dlc_def encode_dlc_hex_def
      ascii_def upper_def upper_char_def isdigit_def isdigit_char_def py_int_def int_space_def
      ascii_isspace_def digit_value_def)

theorem dlc_roundtrip_witness:
  "12 \<in> set canonical_lengths \<and> decode_hex_dlc (encode_dlc_hex 12) = Inr 12 \<and>
   70 \<in> set nibble_chars \<and> map_sum id encode_dlc_hex (decode_hex_dlc [70]) = Inr [70]"
  using dlc_roundtrip by (simp add: canonical_lengths_def nibble_chars_def ascii_def)

subsection \<open>The line framer\<close>


lemma find_byte_absent: "x \<notin> set bs \<Longrightarrow> find_byte bs x = - 1"
  by (induction bs) auto

lemma find_byte_nonneg: "find_byte bs x = - 1 \<or> 0 \<le> find_byte bs x"
  by (induction bs) (auto simp: Let_def)

lemma find_byte_present:
  "x \<in> set bs \<Longrightarrow> find_byte bs x = int (length (takeWhile (\<lambda>b. b \<noteq> x) bs))"
proof (induction bs)
  case Nil
  then show ?case by simp
next
  case (Cons b bs)
  show ?case
  proof (cases "b = x")
    case True
    then show ?thesis by simp
  next
    case False
    with Cons have "find_byte bs x = int (length (takeWhile (\<lambda>b. b \<noteq> x) bs))" by simp
    with False show ?thesis by (simp add: Let_def)
  qed
qed

lemma takeWhile_conj_length:
  "length (takeWhile (\<lambda>x. P x \<and> Q x) xs) =
     min (length (takeWhile P xs)) (length (takeWhile Q xs))"
  by (induction xs) auto

lemma takeWhile_all_length: "x \<notin> set bs \<Longrightarrow> length (takeWhile (\<lambda>b. b \<noteq> x) bs) = length bs"
  by (induction bs) auto

lemma first_marker:
  assumes "\<exists>x \<in> set buf. terminator x"
  shows "(find_byte buf 7 \<noteq> - 1 \<or> find_byte buf 13 \<noteq> - 1) \<and>
         nat (min_list (filter (\<lambda>idx. idx \<noteq> - 1) [find_byte buf 7, find_byte buf 13])) =
           length (takeWhile (\<lambda>x. \<not> terminator x) buf)"
proof -
  have eq: "length (takeWhile (\<lambda>x. \<not> terminator x) buf) =
      min (length (takeWhile (\<lambda>b. b \<noteq> 13) buf)) (length (takeWhile (\<lambda>b. b \<noteq> 7) buf))"
    using takeWhile_conj_length [of "\<lambda>b. b \<noteq> 13" "\<lambda>b. b \<noteq> 7" buf]
    by (simp add: terminator_def)
  have le: "\<And>P. length (takeWhile P buf) \<le> length buf"
    by (simp add: length_takeWhile_le)
  from assms have "13 \<in> set buf \<or> 7 \<in> set buf" by (auto simp: terminator_def)
  then consider (both) "13 \<in> set buf" "7 \<in> set buf" | (ok) "13 \<in> set buf" "7 \<notin> set buf"
    | (err) "13 \<notin> set buf" "7 \<in> set buf" by blast
  then show ?thesis
  proof cases
    case both
    then show ?thesis using eq by (simp add: find_byte_present min.commute)
  next
    case ok
    then show ?thesis using eq le [of "\<lambda>b. b \<noteq> 13"]
      by (simp add: find_byte_present find_byte_absent takeWhile_all_length)
  next
    case err
    then show ?thesis using eq le [of "\<lambda>b. b \<noteq> 7"]
      by (simp add: find_byte_present find_byte_absent takeWhile_all_length)
  qed
qed

lemma no_marker:
  assumes "\<forall>x \<in> set buf. \<not> terminator x"
  shows "find_byte buf 7 = - 1 \<and> find_byte buf 13 = - 1"
  using assms by (auto simp: terminator_def intro: find_byte_absent)

lemma split_at_marker:
  assumes "\<forall>x \<in> set pre. \<not> terminator x" "terminator t"
  shows "length (takeWhile (\<lambda>x. \<not> terminator x) (pre @ t # rest)) = length pre"
  using assms by (simp add: takeWhile_append2)

lemma read_found:
  assumes "timeout \<noteq> Some 0" "buffer b = pre @ t # rest"
    "\<forall>x \<in> set pre. \<not> terminator x" "terminator t"
  shows "bus_read timeout b =
     (case decode (pre @ [t]) of
        Inl e \<Rightarrow> Raises CanOperationError b
      | Inr s \<Rightarrow> Returns (Some s) (b\<lparr>buffer := rest\<rparr>))"
proof -
  have ex: "\<exists>x \<in> set (buffer b). terminator x" using assms by auto
  have len: "length (takeWhile (\<lambda>x. \<not> terminator x) (buffer b)) = length pre"
    using assms split_at_marker by simp
  have found: "(find_byte (buffer b) 7 \<noteq> - 1 \<or> find_byte (buffer b) 13 \<noteq> - 1) = True"
    using first_marker [OF ex] by simp
  have idx: "nat (min_list (filter (\<lambda>idx. idx \<noteq> - 1)
               [find_byte (buffer b) 7, find_byte (buffer b) 13])) = length pre"
    using first_marker [OF ex] len by simp
  have tk: "take (length pre + 1) (buffer b) = pre @ [t]"
    and dr: "drop (length pre + 1) (buffer b) = rest"
    using assms(2) by simp_all
  have t0: "(timeout = Some 0) = False" using assms(1) by simp
  show ?thesis
    by (subst bus_read.simps) (simp only: Let_def found idx tk dr t0 if_True if_False)
qed

lemma decode_points_ascii: "\<forall>x \<in> set ns. x < 128 \<Longrightarrow> decode_points ns = Inr ns"
  by (induction ns) auto

lemma decode_ascii: "\<forall>x \<in> set bs. x < 128 \<Longrightarrow> decode bs = Inr (map unat bs)"
  unfolding decode_def by (rule decode_points_ascii) (auto simp: word_less_nat_alt)

lemma segments_split:
  assumes "\<forall>x \<in> set pre. \<not> terminator x" "terminator t"
  shows "segments acc (pre @ t # rest) = (acc @ pre @ [t]) # segments [] rest"
  using assms by (induction pre arbitrary: acc) auto

lemma remainder_split:
  assumes "\<forall>x \<in> set pre. \<not> terminator x" "terminator t"
  shows "remainder acc (pre @ t # rest) = remainder [] rest"
  using assms by (induction pre arbitrary: acc) auto

lemma segments_none: "\<forall>x \<in> set st. \<not> terminator x \<Longrightarrow> segments acc st = []"
  by (induction st arbitrary: acc) auto

lemma remainder_none: "\<forall>x \<in> set st. \<not> terminator x \<Longrightarrow> remainder acc st = acc @ st"
  by (induction st arbitrary: acc) auto

lemma segments_remainder: "concat (segments acc st) @ remainder acc st = acc @ st"
  by (induction st arbitrary: acc) auto

lemma first_split_unique:
  assumes "p @ u # r = pre @ t # rest" "P u" "\<forall>x \<in> set p. \<not> P x"
    "\<forall>x \<in> set pre. \<not> P x" "P t"
  shows "p = pre \<and> u = t \<and> r = rest"
  using assms
proof (induction p arbitrary: pre)
  case Nil
  then show ?case by (cases pre) auto
next
  case (Cons a p)
  then show ?case by (cases pre) auto
qed

lemma read_stream:
  assumes "is_open (serialPortOrig b)"
    "buffer b @ concat (pending (serialPortOrig b)) = pre @ t # rest"
    "\<forall>x \<in> set pre. \<not> terminator x" "terminator t" "decode (pre @ [t]) = Inr s"
  shows "\<exists>b'. bus_read None b = Returns (Some s) b' \<and> is_open (serialPortOrig b') \<and>
               buffer b' @ concat (pending (serialPortOrig b')) = rest"
  using assms
proof (induction "pending (serialPortOrig b)" arbitrary: b)
  case Nil
  then have buf: "buffer b = pre @ t # rest" by simp
  have "bus_read None b = Returns (Some s) (b\<lparr>buffer := rest\<rparr>)"
    using read_found [OF _ buf Nil.prems(3,4), of None] Nil.prems(5) by simp
  with Nil show ?case by simp
next
  case (Cons c cs)
  show ?case
  proof (cases "\<exists>x \<in> set (buffer b). terminator x")
    case True
    then obtain p u r where sp: "buffer b = p @ u # r" "terminator u" "\<forall>x \<in> set p. \<not> terminator x"
      by (metis split_list_first_prop)
    have "p @ u # (r @ concat (pending (serialPortOrig b))) = pre @ t # rest"
      using Cons.prems(2) sp(1) by simp
    then have "p = pre \<and> u = t \<and> r @ concat (pending (serialPortOrig b)) = rest"
      using sp(2,3) Cons.prems(3,4) by (rule first_split_unique)
    then show ?thesis
      using read_found [OF _ sp(1) sp(3) sp(2), of None] Cons.prems(1,5) by simp
  next
    case False
    let ?b = "b\<lparr>serialPortOrig := (serialPortOrig b)\<lparr>pending := cs\<rparr>, buffer := buffer b @ c\<rparr>"
    have step: "bus_read None b = bus_read None ?b"
      using no_marker [of "buffer b"] False Cons.prems(1) Cons.hyps(2) [symmetric]
      by (subst bus_read.simps) (simp add: Let_def)
    have "\<exists>b'. bus_read None ?b = Returns (Some s) b' \<and> is_open (serialPortOrig b') \<and>
               buffer b' @ concat (pending (serialPortOrig b')) = rest"
      using Cons.prems Cons.hyps(2) [symmetric]
      by (intro Cons.hyps(1)) simp_all
    with step show ?thesis by simp
  qed
qed

lemma segments_empty: "segments acc st = [] \<Longrightarrow> \<forall>x \<in> set st. \<not> terminator x"
  by (induction st arbitrary: acc) (auto split: if_splits)

lemma first_terminator:
  assumes "\<exists>x \<in> set st. terminator x"
  shows "\<exists>pre t rest. st = pre @ t # rest \<and> terminator t \<and> (\<forall>x \<in> set pre. \<not> terminator x)"
proof -
  from assms obtain pre t rest where "st = pre @ t # rest" "terminator t"
      "\<forall>x \<in> set pre. \<not> terminator x"
    using split_list_first_prop [of st terminator] by blast
  then show ?thesis by blast
qed

lemma read_many_stream:
  assumes "is_open (serialPortOrig b)"
    "map decode (segments [] (buffer b @ concat (pending (serialPortOrig b)))) = map Inr ss"
  shows "\<exists>b'. read_many (length ss) b = Returns (map Some ss) b' \<and>
           buffer b' @ concat (pending (serialPortOrig b')) =
             remainder [] (buffer b @ concat (pending (serialPortOrig b)))"
  using assms
proof (induction ss arbitrary: b)
  case Nil
  define st where "st = buffer b @ concat (pending (serialPortOrig b))"
  from Nil.prems(2) have "segments [] st = []" unfolding st_def by simp
  then have "\<forall>x \<in> set st. \<not> terminator x" by (rule segments_empty)
  then have "remainder [] st = [] @ st" by (rule remainder_none)
  then have "buffer b @ concat (pending (serialPortOrig b)) = remainder [] st"
    unfolding st_def by simp
  then have "read_many (length ([]::str list)) b = Returns (map Some []) b \<and>
      buffer b @ concat (pending (serialPortOrig b)) = remainder [] st" by simp
  then show ?case unfolding st_def by (rule exI)
next
  case (Cons s ss)
  define st where "st = buffer b @ concat (pending (serialPortOrig b))"
  from Cons.prems(2) have md: "map decode (segments [] st) = Inr s # map Inr ss"
    unfolding st_def by simp
  then have "segments [] st \<noteq> []" by auto
  then have "\<not> (\<forall>x \<in> set st. \<not> terminator x)"
    using segments_none [of st "[]"] by blast
  then have "\<exists>x \<in> set st. terminator x" by blast
  then obtain pre t rest where sp: "st = pre @ t # rest" "terminator t"
      "\<forall>x \<in> set pre. \<not> terminator x"
    using first_terminator [of st] by blast
  have seg: "segments [] st = (pre @ [t]) # segments [] rest"
    using segments_split [OF sp(3) sp(2), of "[]" rest] sp(1) by simp
  have rem: "remainder [] st = remainder [] rest"
    using remainder_split [OF sp(3) sp(2), of "[]" rest] sp(1) by simp
  from md seg have d1: "decode (pre @ [t]) = Inr s"
    and d2: "map decode (segments [] rest) = map Inr ss" by simp_all
  have sb: "buffer b @ concat (pending (serialPortOrig b)) = pre @ t # rest"
    using sp(1) unfolding st_def by simp
  have "\<exists>b'. bus_read None b = Returns (Some s) b' \<and> is_open (serialPortOrig b') \<and>
               buffer b' @ concat (pending (serialPortOrig b')) = rest"
    by (rule read_stream [OF Cons.prems(1) sb sp(3) sp(2) d1])
  then obtain b1 where b1: "bus_read None b = Returns (Some s) b1" "is_open (serialPortOrig b1)"
      "buffer b1 @ concat (pending (serialPortOrig b1)) = rest"
    by (elim exE conjE)
  have d3: "map decode (segments [] (buffer b1 @ concat (pending (serialPortOrig b1)))) =
      map Inr ss"
    unfolding b1(3) by (rule d2)
  have "\<exists>b'. read_many (length ss) b1 = Returns (map Some ss) b' \<and>
           buffer b' @ concat (pending (serialPortOrig b')) =
             remainder [] (buffer b1 @ concat (pending (serialPortOrig b1)))"
    by (rule Cons.IH [OF b1(2) d3])
  then obtain b2 where b2: "read_many (length ss) b1 = Returns (map Some ss) b2"
      "buffer b2 @ concat (pending (serialPortOrig b2)) = remainder [] rest"
    unfolding b1(3) by (elim exE conjE)
  have "read_many (length (s # ss)) b = Returns (map Some (s # ss)) b2"
    using b1(1) b2(1) by simp
  moreover have "buffer b2 @ concat (pending (serialPortOrig b2)) = remainder [] st"
    using b2(2) rem by simp
  ultimately have "read_many (length (s # ss)) b = Returns (map Some (s # ss)) b2 \<and>
      buffer b2 @ concat (pending (serialPortOrig b2)) = remainder [] st" by (rule conjI)
  then show ?case unfolding st_def by (rule exI)
qed

text \<open>
  C2 (amended). A call of \<open>_read\<close> whose timeout has not expired on entry, on a buffer
  that holds a terminator-free prefix, a terminator (\<open>'\\r'\<close> or \<open>'\\a'\<close>) and a
  rest, returns the prefix with its terminator, decoded, and leaves exactly the rest in the
  buffer, provided the prefix is valid UTF-8. On an open transport, if every
  terminator-delimited segment of the byte stream (buffer followed by the bytes still to
  arrive) decodes, then as many calls of \<open>_read(None)\<close> as there are segments return the
  decoded segments in order, and what is left (buffer and bytes not yet read) is the
  unterminated rest of the stream: segments and rest concatenated give the stream back.
\<close>

theorem framer_segments:
  "(timeout \<noteq> Some 0 \<and> buffer b = pre @ t # rest \<and> (\<forall>x \<in> set pre. \<not> terminator x) \<and>
    terminator t \<and> decode (pre @ [t]) = Inr s \<longrightarrow>
      bus_read timeout b = Returns (Some s) (b\<lparr>buffer := rest\<rparr>)) \<and>
   (is_open (serialPortOrig c) \<and>
    map decode (segments [] (buffer c @ concat (pending (serialPortOrig c)))) = map Inr ss \<longrightarrow>
      (\<exists>c'. read_many (length ss) c = Returns (map Some ss) c' \<and>
         buffer c' @ concat (pending (serialPortOrig c')) =
           remainder [] (buffer c @ concat (pending (serialPortOrig c))) \<and>
         concat (segments [] (buffer c @ concat (pending (serialPortOrig c)))) @
           buffer c' @ concat (pending (serialPortOrig c')) =
           buffer c @ concat (pending (serialPortOrig c))))"
proof (rule conjI; rule impI)
  assume a: "timeout \<noteq> Some 0 \<and> buffer b = pre @ t # rest \<and>
    (\<forall>x \<in> set pre. \<not> terminator x) \<and> terminator t \<and> decode (pre @ [t]) = Inr s"
  then have "bus_read timeout b =
     (case decode (pre @ [t]) of
        Inl e \<Rightarrow> Raises CanOperationError b
      | Inr s \<Rightarrow> Returns (Some s) (b\<lparr>buffer := rest\<rparr>))"
    by (intro read_found) simp_all
  with a show "bus_read timeout b = Returns (Some s) (b\<lparr>buffer := rest\<rparr>)"
    by simp
next
  define st where "st = buffer c @ concat (pending (serialPortOrig c))"
  assume a: "is_open (serialPortOrig c) \<and>
    map decode (segments [] (buffer c @ concat (pending (serialPortOrig c)))) = map Inr ss"
  then have "\<exists>b'. read_many (length ss) c = Returns (map Some ss) b' \<and>
           buffer b' @ concat (pending (serialPortOrig b')) =
             remainder [] (buffer c @ concat (pending (serialPortOrig c)))"
    by (intro read_many_stream) simp_all
  then obtain c' where c': "read_many (length ss) c = Returns (map Some ss) c'"
    "buffer c' @ concat (pending (serialPortOrig c')) = remainder [] st"
    unfolding st_def by (elim exE conjE)
  have "concat (segments [] st) @ remainder [] st = [] @ st"
    by (rule segments_remainder)
  then have "concat (segments [] st) @ buffer c' @ concat (pending (serialPortOrig c')) = st"
    using c'(2) by simp
  with c' have "read_many (length ss) c = Returns (map Some ss) c' \<and>
         buffer c' @ concat (pending (serialPortOrig c')) = remainder [] st \<and>
         concat (segments [] st) @ buffer c' @ concat (pending (serialPortOrig c')) = st"
    by simp
  then show "\<exists>c'. read_many (length ss) c = Returns (map Some ss) c' \<and>
         buffer c' @ concat (pending (serialPortOrig c')) =
           remainder [] (buffer c @ concat (pending (serialPortOrig c))) \<and>
         concat (segments [] (buffer c @ concat (pending (serialPortOrig c)))) @
           buffer c' @ concat (pending (serialPortOrig c')) =
           buffer c @ concat (pending (serialPortOrig c))"
    unfolding st_def by (rule exI)
qed

theorem framer_segments_witness:
  "bus_read None (fresh_bus\<lparr>buffer := [65, 7, 66, 13, 67]\<rparr>) =
     Returns (Some [65, 7]) (fresh_bus\<lparr>buffer := [66, 13, 67]\<rparr>) \<and>
   (\<exists>c'. read_many (Suc (Suc 0)) (fresh_bus\<lparr>buffer := [65],
            serialPortOrig := (serialPortOrig fresh_bus)\<lparr>pending := [[], [7, 66], [13, 67]]\<rparr>\<rparr>) =
          Returns [Some [65, 7], Some [66, 13]] c' \<and>
          buffer c' @ concat (pending (serialPortOrig c')) = [67] \<and>
          [65, 7, 66, 13] @ buffer c' @ concat (pending (serialPortOrig c')) =
            [65, 7, 66, 13, 67])"
proof -
  have d: "decode [65, 7] = Inr [65, 7]" "decode [66, 13] = Inr [66, 13]"
    by (simp_all add: decode_def)
  let ?b = "fresh_bus\<lparr>buffer := [65, 7, 66, 13, 67]\<rparr>"
  have h1: "None \<noteq> Some (0::nat) \<and> buffer ?b = [65] @ 7 # [66, 13, 67] \<and>
      (\<forall>x \<in> set [65::byte]. \<not> terminator x) \<and> terminator 7 \<and> decode ([65] @ [7]) = Inr [65, 7]"
    using d by (simp add: terminator_def)
  let ?c = "fresh_bus\<lparr>buffer := [65],
            serialPortOrig := (serialPortOrig fresh_bus)\<lparr>pending := [[], [7, 66], [13, 67]]\<rparr>\<rparr>"
  let ?ss = "[[65, 7], [66, 13::nat]]"
  have st: "buffer ?c @ concat (pending (serialPortOrig ?c)) = [65, 7, 66, 13, 67]"
    by simp
  have sg: "segments [] [65, 7, 66, 13, 67] = [[65, 7], [66, 13]]"
    and r: "remainder [] [65, 7, 66, 13, 67] = [67]"
    by (simp_all add: terminator_def)
  have h2: "is_open (serialPortOrig ?c) \<and>
      map decode (segments [] (buffer ?c @ concat (pending (serialPortOrig ?c)))) = map Inr ?ss"
    unfolding st sg using d by (simp add: fresh_bus_def)
  have len: "length ?ss = Suc (Suc 0)" and ms: "map Some ?ss = [Some [65, 7], Some [66, 13]]"
    and cc: "concat [[65, 7], [66, 13::byte]] = [65, 7, 66, 13]"
    by simp_all
  note T = framer_segments [of None ?b "[65]" 7 "[66, 13, 67]" "[65, 7]" ?c ?ss]
  have e: "?b\<lparr>buffer := [66, 13, 67]\<rparr> = fresh_bus\<lparr>buffer := [66, 13, 67]\<rparr>" by simp
  have p1: "bus_read None ?b = Returns (Some [65, 7]) (fresh_bus\<lparr>buffer := [66, 13, 67]\<rparr>)"
    using T [THEN conjunct1, THEN mp, OF h1] by (simp only: e)
  have p2: "\<exists>c'. read_many (Suc (Suc 0)) ?c = Returns [Some [65, 7], Some [66, 13]] c' \<and>
          buffer c' @ concat (pending (serialPortOrig c')) = [67] \<and>
          [65, 7, 66, 13] @ buffer c' @ concat (pending (serialPortOrig c')) =
            [65, 7, 66, 13, 67]"
    using T [THEN conjunct2, THEN mp, OF h2] by (simp only: st sg r len ms cc)
  show ?thesis by (rule conjI [OF p1 p2])
qed

end
